theory Spec2Isabelle
  imports Main
begin

section \<open>JavaScript containers used by the analytics dispatcher\<close>

text \<open>
  A JavaScript \<^verbatim>\<open>Map\<close> iterates its entries in the order in which their keys were first
  inserted; \<^verbatim>\<open>set\<close> on a key that is present replaces the value and keeps the
  position. The model is an association list in iteration order.
\<close>

fun Map_set :: "'k \<Rightarrow> 'v \<Rightarrow> ('k \<times> 'v) list \<Rightarrow> ('k \<times> 'v) list" where
  "Map_set k v [] = [(k, v)]"
| "Map_set k v ((k', v') # m) = (if k' = k then (k, v) # m else (k', v') # Map_set k v m)"

definition Map_get :: "'k \<Rightarrow> ('k \<times> 'v) list \<Rightarrow> 'v option" where
  "Map_get k m = map_of m k"

definition Map_has :: "'k \<Rightarrow> ('k \<times> 'v) list \<Rightarrow> bool" where
  "Map_has k m = (map_of m k \<noteq> None)"

text \<open>
  Values that a callback can throw and that \<^verbatim>\<open>console.error\<close> can print, told apart by
  what the \<^verbatim>\<open>catch\<close> block of \<^verbatim>\<open>publishEvent\<close> does with them:
  \<^item> \<open>ErrorObject\<close>: an instance of \<^verbatim>\<open>Error\<close> with a readable message;
  \<^item> \<open>OtherValue\<close>: any other value whose inspection completes (a primitive, a
    function, \<^verbatim>\<open>null\<close>, an object that is no instance of \<^verbatim>\<open>Error\<close>), rendered as text;
  \<^item> \<open>InstanceofThrows\<close>: an object for which \<^verbatim>\<open>error instanceof Error\<close> itself throws
    the given value (a proxy whose \<^verbatim>\<open>getPrototypeOf\<close> trap throws, a revoked proxy);
  \<^item> \<open>MessageThrows\<close>: an instance of \<^verbatim>\<open>Error\<close> whose \<^verbatim>\<open>message\<close> getter throws the
    given value.
\<close>

datatype js_value =
    ErrorObject string
  | OtherValue string
  | InstanceofThrows js_value
  | MessageThrows js_value

text \<open>
  \<^verbatim>\<open>registers\<close> is a plain object literal \<^verbatim>\<open>{}\<close> used as a dictionary. The model
  keeps its own enumerable properties as an association list (the order of
  \<^verbatim>\<open>Object.keys\<close> plays no role in the code below). Two properties of
  \<^verbatim>\<open>Object.prototype\<close> show through a plain object:
  \<^item> \<^verbatim>\<open>registers[key] = v\<close> with key \<^verbatim>\<open>__proto__\<close> runs the prototype's setter, which
    ignores a boolean and creates no own property;
  \<^item> \<^verbatim>\<open>registers.hasOwnProperty(key)\<close> looks the method up on the object first: once
    an own property named \<^verbatim>\<open>hasOwnProperty\<close> exists, its boolean value is called and
    the call throws a TypeError.
\<close>

definition prop_assign :: "string \<Rightarrow> bool \<Rightarrow> (string \<times> bool) list \<Rightarrow> (string \<times> bool) list" where
  "prop_assign key v regs = (if key = ''__proto__'' then regs else Map_set key v regs)"

definition prop_read :: "(string \<times> bool) list \<Rightarrow> string \<Rightarrow> bool" where
  \<comment> \<open>the truthiness of \<^verbatim>\<open>registers[key]\<close>, read at own keys only\<close>
  "prop_read regs key = (case map_of regs key of Some b \<Rightarrow> b | None \<Rightarrow> False)"

definition Object_keys :: "(string \<times> bool) list \<Rightarrow> string list" where
  "Object_keys regs = map fst regs"

definition hasOwnProperty :: "(string \<times> bool) list \<Rightarrow> string \<Rightarrow> js_value + bool" where
  "hasOwnProperty regs key =
     (if Map_has ''hasOwnProperty'' regs
      then Inl (ErrorObject ''registers.hasOwnProperty is not a function'')
      else Inr (Map_has key regs))"

section \<open>The dispatcher state\<close>

text \<open>
  A subscriber callback is an external function. The model keeps what the dispatcher can
  observe of it: its reference identity, the text \<^verbatim>\<open>callback.toString()\<close> returns, and
  whether a call with a given payload returns (\<open>None\<close>) or throws a value. Callbacks
  do not call back into the dispatcher.
\<close>

record 'p callback =
  identity :: nat
  toString :: string
  behaviour :: "'p \<Rightarrow> js_value option"

text \<open>
  What the dispatcher does to the outside world, in order: a callback invoked with a
  payload (tagged with the event under which \<^verbatim>\<open>publishEvent\<close> reached it), and a line
  written by \<^verbatim>\<open>console.error\<close> (its label and its second argument).
\<close>

datatype console_arg = Text string | Value js_value

datatype 'p effect = Invoked string nat 'p | ConsoleError string console_arg

text \<open>
  The three module-scope containers \<^verbatim>\<open>subscribers\<close>, \<^verbatim>\<open>registers\<close> and
  \<^verbatim>\<open>waitForReadyQueue\<close>, and the log of effects.
\<close>

record 'p dispatcher =
  subscribers :: "(string \<times> (string \<times> 'p callback) list) list"
  registers :: "(string \<times> bool) list"
  waitForReadyQueue :: "(string \<times> 'p) list"
  effects :: "'p effect list"

definition initial :: "'p dispatcher" where
  "initial = \<lparr>subscribers = [], registers = [], waitForReadyQueue = [], effects = []\<rparr>"

text \<open>
  A statement either completes (\<open>None\<close>) or throws a value (\<open>Some\<close>); the state
  reached so far is kept in both cases. \<^verbatim>\<open>forEach\<close> stops at the first iteration that
  throws.
\<close>

fun forEach :: "('a \<Rightarrow> 's \<Rightarrow> js_value option \<times> 's) \<Rightarrow> 'a list \<Rightarrow> 's \<Rightarrow> js_value option \<times> 's" where
  "forEach f [] s = (None, s)"
| "forEach f (x # xs) s =
     (case f x s of
        (Some e, s') \<Rightarrow> (Some e, s')
      | (None, s') \<Rightarrow> forEach f xs s')"

section \<open>The dispatcher operations\<close>

definition areRegistersReady :: "'p dispatcher \<Rightarrow> bool" where
  "areRegistersReady s =
     fold (\<lambda>key ready. if \<not> prop_read (registers s) key then False else ready)
       (Object_keys (registers s)) True"

definition subscribe :: "string \<Rightarrow> 'p callback \<Rightarrow> 'p dispatcher \<Rightarrow> js_value option \<times> 'p dispatcher" where
  "subscribe event callback s =
     (let s1 = (if \<not> Map_has event (subscribers s)
                then s\<lparr>subscribers := Map_set event [] (subscribers s)\<rparr> else s)
      in (None,
          case Map_get event (subscribers s1) of
            Some m \<Rightarrow> s1\<lparr>subscribers :=
                        Map_set event (Map_set (toString callback) callback m) (subscribers s1)\<rparr>
          | None \<Rightarrow> s1))"

definition console_error :: "string \<Rightarrow> console_arg \<Rightarrow> 'p dispatcher \<Rightarrow> 'p dispatcher" where
  "console_error label arg s = s\<lparr>effects := effects s @ [ConsoleError label arg]\<rparr>"

definition call_callback ::
  "string \<Rightarrow> 'p callback \<Rightarrow> 'p \<Rightarrow> 'p dispatcher \<Rightarrow> js_value option \<times> 'p dispatcher" where
  "call_callback event callback payload s =
     (behaviour callback payload,
      s\<lparr>effects := effects s @ [Invoked event (identity callback) payload]\<rparr>)"

text \<open>
  The two inspections of the \<^verbatim>\<open>catch\<close> block, which stand outside any \<^verbatim>\<open>try\<close>: the
  condition \<^verbatim>\<open>typeof error === 'object' && error instanceof Error\<close>, and the read of
  \<^verbatim>\<open>error.message\<close> made when the condition holds. Either yields its result (\<open>Inr\<close>) or
  throws a value (\<open>Inl\<close>). The code reads the message of instances of \<^verbatim>\<open>Error\<close> only;
  \<open>message_of\<close> gives the empty text elsewhere.
\<close>

fun instanceof_Error :: "js_value \<Rightarrow> js_value + bool" where
  "instanceof_Error (ErrorObject message) = Inr True"
| "instanceof_Error (OtherValue v) = Inr False"
| "instanceof_Error (InstanceofThrows e) = Inl e"
| "instanceof_Error (MessageThrows e) = Inr True"

fun message_of :: "js_value \<Rightarrow> js_value + string" where
  "message_of (ErrorObject message) = Inr message"
| "message_of (MessageThrows e) = Inl e"
| "message_of (OtherValue v) = Inr []"
| "message_of (InstanceofThrows e) = Inr []"

text \<open>
  The body of the loop of \<^verbatim>\<open>publishEvent\<close>: the call inside \<^verbatim>\<open>try\<close>, and the \<^verbatim>\<open>catch\<close>
  block, which throws what its inspections throw.
\<close>

definition try_callback ::
  "string \<Rightarrow> 'p \<Rightarrow> string \<times> 'p callback \<Rightarrow> 'p dispatcher \<Rightarrow> js_value option \<times> 'p dispatcher" where
  "try_callback event payload entry s =
     (case call_callback event (snd entry) payload s of
        (None, s') \<Rightarrow> (None, s')
      | (Some error, s') \<Rightarrow>
          (case instanceof_Error error of
             Inl e \<Rightarrow> (Some e, s')
           | Inr True \<Rightarrow>
               (case message_of error of
                  Inl e \<Rightarrow> (Some e, s')
                | Inr message \<Rightarrow>
                    (None, console_error ''Analytics publish error'' (Text message) s'))
           | Inr False \<Rightarrow>
               (None, console_error ''Analytics publish error'' (Value error) s')))"

definition publishEvent :: "string \<Rightarrow> 'p \<Rightarrow> 'p dispatcher \<Rightarrow> js_value option \<times> 'p dispatcher" where
  "publishEvent event payload s =
     forEach (try_callback event payload)
       (case Map_get event (subscribers s) of Some m \<Rightarrow> m | None \<Rightarrow> []) s"

definition publish :: "string \<Rightarrow> 'p \<Rightarrow> 'p dispatcher \<Rightarrow> js_value option \<times> 'p dispatcher" where
  "publish event payload s =
     (if \<not> areRegistersReady s
      then (None, s\<lparr>waitForReadyQueue := Map_set event payload (waitForReadyQueue s)\<rparr>)
      else publishEvent event payload s)"

text \<open>The closure \<^verbatim>\<open>ready\<close> that \<^verbatim>\<open>register(key)\<close> returns, as a function of its key.\<close>

definition register_ready :: "string \<Rightarrow> 'p dispatcher \<Rightarrow> js_value option \<times> 'p dispatcher" where
  "register_ready key s =
     (let s1 = s\<lparr>registers := prop_assign key True (registers s)\<rparr>
      in if areRegistersReady s1 \<and> length (waitForReadyQueue s1) > 0
         then (case forEach (\<lambda>(queueEvent, queuePayload). publishEvent queueEvent queuePayload)
                      (waitForReadyQueue s1) s1 of
                 (Some e, s2) \<Rightarrow> (Some e, s2)
               | (None, s2) \<Rightarrow> (None, s2\<lparr>waitForReadyQueue := []\<rparr>))
         else (None, s1))"

record 'p registration =
  ready :: "'p dispatcher \<Rightarrow> js_value option \<times> 'p dispatcher"

definition register :: "string \<Rightarrow> 'p dispatcher \<Rightarrow> (js_value + 'p registration) \<times> 'p dispatcher" where
  "register key s =
     (case hasOwnProperty (registers s) key of
        Inl e \<Rightarrow> (Inl e, s)
      | Inr has \<Rightarrow>
          (Inr \<lparr>ready = register_ready key\<rparr>,
           if \<not> has then s\<lparr>registers := prop_assign key False (registers s)\<rparr> else s))"

section \<open>The hook that reads the provider's value\<close>

text \<open>
  A reference that may be \<^verbatim>\<open>undefined\<close> or \<^verbatim>\<open>null\<close>; only an object is truthy.
\<close>

datatype 'a js_ref = Undefined | Null | Object 'a

fun truthy :: "'a js_ref \<Rightarrow> bool" where
  "truthy (Object _) = True"
| "truthy _ = False"

typedecl CartReturn
typedecl ShopAnalytic

record Carts =
  cart :: "CartReturn option"
  prevCart :: "CartReturn option"

text \<open>
  \<^verbatim>\<open>AnalyticsContextValue\<close>: the cart snapshot (spread into the value), the tracking
  predicate, the custom payload, the resolved shop and the dispatcher's functions. The
  function fields carry the prefix \<open>ctx_\<close>, their names being taken by the dispatcher
  operations above. \<open>ctx_setCarts\<close> maps the requested snapshot and the provider's
  current one to the next one.
\<close>

record 'p AnalyticsContextValue = Carts +
  canTrack :: "unit \<Rightarrow> bool"
  customPayload :: "(string \<times> js_value) list"
  ctx_publish :: "string \<Rightarrow> 'p \<Rightarrow> 'p dispatcher \<Rightarrow> js_value option \<times> 'p dispatcher"
  ctx_setCarts :: "Carts \<Rightarrow> Carts \<Rightarrow> Carts"
  shop :: "ShopAnalytic option"
  ctx_subscribe :: "string \<Rightarrow> 'p callback \<Rightarrow> 'p dispatcher \<Rightarrow> js_value option \<times> 'p dispatcher"
  ctx_register :: "string \<Rightarrow> 'p dispatcher \<Rightarrow> (js_value + 'p registration) \<times> 'p dispatcher"

definition defaultAnalyticsContext :: "'p AnalyticsContextValue" where
  "defaultAnalyticsContext =
     \<lparr>cart = None, prevCart = None,
      canTrack = (\<lambda>_. False),
      customPayload = [],
      ctx_publish = (\<lambda>_ _ s. (None, s)),
      ctx_setCarts = (\<lambda>_ current. current),
      shop = None,
      ctx_subscribe = (\<lambda>_ _ s. (None, s)),
      ctx_register = (\<lambda>_ s. (Inr \<lparr>ready = (\<lambda>s'. (None, s'))\<rparr>, s))\<rparr>"

text \<open>\<^verbatim>\<open>createContext(defaultAnalyticsContext)\<close>: a context is given by its default value.\<close>

definition AnalyticsContext :: "'p AnalyticsContextValue js_ref" where
  "AnalyticsContext = Object defaultAnalyticsContext"

text \<open>
  \<^verbatim>\<open>useContext\<close> returns the value of the nearest enclosing provider, and the context's
  default value when the calling component has no provider above it (\<open>None\<close>).
  The hook's message is kept without the quotation marks around the hook's name.
\<close>

definition useContext :: "'v \<Rightarrow> 'v option \<Rightarrow> 'v" where
  "useContext defaultValue provider = (case provider of Some v \<Rightarrow> v | None \<Rightarrow> defaultValue)"

definition useAnalyticsProvider ::
  "'p AnalyticsContextValue js_ref option \<Rightarrow> js_value + 'p AnalyticsContextValue js_ref" where
  "useAnalyticsProvider provider =
     (let analyticsContext = useContext AnalyticsContext provider
      in if \<not> truthy analyticsContext
         then Inl (ErrorObject
                ''useAnalyticsProvider() must be a descendent of <AnalyticsProvider/>'')
         else Inr analyticsContext)"

section \<open>Notions used to state the properties\<close>

text \<open>
  The containers of a running dispatcher have no repeated keys, and \<^verbatim>\<open>__proto__\<close> is
  never an own property of \<^verbatim>\<open>registers\<close>. Every operation keeps this (lemmas
  \<open>wf_initial\<close> to \<open>wf_register\<close> below).
\<close>

definition wf :: "'p dispatcher \<Rightarrow> bool" where
  "wf s =
     (distinct (map fst (subscribers s)) \<and>
      distinct (map fst (registers s)) \<and>
      ''__proto__'' \<notin> set (map fst (registers s)) \<and>
      distinct (map fst (waitForReadyQueue s)))"



text \<open>
  The \<^verbatim>\<open>Map\<close> of an event's subscribers (empty when the event has none), the
  callbacks in it in iteration order, and the texts they are stored under.
\<close>

definition subscriber_entries :: "string \<Rightarrow> 'p dispatcher \<Rightarrow> (string \<times> 'p callback) list" where
  "subscriber_entries event s =
     (case Map_get event (subscribers s) of Some m \<Rightarrow> m | None \<Rightarrow> [])"

definition subscribers_of :: "string \<Rightarrow> 'p dispatcher \<Rightarrow> 'p callback list" where
  "subscribers_of event s = map snd (subscriber_entries event s)"

definition subscriber_keys :: "string \<Rightarrow> 'p dispatcher \<Rightarrow> string list" where
  "subscriber_keys event s = map fst (subscriber_entries event s)"

text \<open>
  What delivering a payload to one callback leaves in the log: the invocation, followed by
  the line on the console (\<open>logged\<close>) when the callback throws a value the \<^verbatim>\<open>catch\<close>
  block can inspect; nothing is written for a value whose inspection throws. Delivering an
  entry (an event with a payload) to the subscribers of a state is the sequence of these,
  in subscriber order.
\<close>

fun logged :: "js_value \<Rightarrow> 'p effect list" where
  "logged (ErrorObject message) = [ConsoleError ''Analytics publish error'' (Text message)]"
| "logged (OtherValue v) = [ConsoleError ''Analytics publish error'' (Value (OtherValue v))]"
| "logged (InstanceofThrows e) = []"
| "logged (MessageThrows e) = []"

definition deliver_one :: "string \<Rightarrow> 'p \<Rightarrow> 'p callback \<Rightarrow> 'p effect list" where
  "deliver_one event payload callback =
     Invoked event (identity callback) payload #
     (case behaviour callback payload of None \<Rightarrow> [] | Some error \<Rightarrow> logged error)"

text \<open>
  The value that leaves the \<^verbatim>\<open>catch\<close> block when a callback is called with a payload:
  none when the callback returns or throws a value the block can inspect. A callback is
  \<open>caught\<close> at a payload when nothing leaves the block, and \<open>catchable\<close> when it is caught
  at every payload; \<open>inspectable_throws\<close> says that every subscriber of a state is
  catchable.
\<close>

fun escaping_catch :: "js_value \<Rightarrow> js_value option" where
  "escaping_catch (ErrorObject message) = None"
| "escaping_catch (OtherValue v) = None"
| "escaping_catch (InstanceofThrows e) = Some e"
| "escaping_catch (MessageThrows e) = Some e"

definition uncaught :: "'p callback \<Rightarrow> 'p \<Rightarrow> js_value option" where
  "uncaught callback payload =
     (case behaviour callback payload of None \<Rightarrow> None | Some error \<Rightarrow> escaping_catch error)"

definition caught :: "'p callback \<Rightarrow> 'p \<Rightarrow> bool" where
  "caught callback payload = (uncaught callback payload = None)"

definition catchable :: "'p callback \<Rightarrow> bool" where
  "catchable callback = (\<forall>payload. caught callback payload)"

definition inspectable_throws :: "'p dispatcher \<Rightarrow> bool" where
  "inspectable_throws s =
     list_all (\<lambda>(event, m). list_all (\<lambda>(text, callback). catchable callback) m) (subscribers s)"

text \<open>
  The callbacks that a delivery to a list of subscribers invokes (\<open>reached\<close>): all up to
  and including the first that is not caught; and the value the delivery throws
  (\<open>escaping\<close>), none when every callback is caught.
\<close>

fun reached :: "'p \<Rightarrow> 'p callback list \<Rightarrow> 'p callback list" where
  "reached payload [] = []"
| "reached payload (callback # callbacks) =
     callback # (if caught callback payload then reached payload callbacks else [])"

fun escaping :: "'p \<Rightarrow> 'p callback list \<Rightarrow> js_value option" where
  "escaping payload [] = None"
| "escaping payload (callback # callbacks) =
     (case uncaught callback payload of
        None \<Rightarrow> escaping payload callbacks
      | Some e \<Rightarrow> Some e)"

definition delivered :: "'p dispatcher \<Rightarrow> string \<times> 'p \<Rightarrow> 'p effect list" where
  "delivered s entry =
     concat (map (deliver_one (fst entry) (snd entry)) (subscribers_of (fst entry) s))"

text \<open>The invocations in a log (all of them, and those made under one event).\<close>

fun is_invocation :: "'p effect \<Rightarrow> bool" where
  "is_invocation (Invoked _ _ _) = True"
| "is_invocation (ConsoleError _ _) = False"


definition invocations :: "'p effect list \<Rightarrow> 'p effect list" where
  "invocations log = filter is_invocation log"



text \<open>A list without its repetitions, every element at the place of its first occurrence.\<close>

fun first_order :: "'a list \<Rightarrow> 'a list" where
  "first_order [] = []"
| "first_order (x # xs) = x # filter (\<lambda>y. y \<noteq> x) (first_order xs)"


definition subscribe_all :: "string \<Rightarrow> 'p callback list \<Rightarrow> 'p dispatcher \<Rightarrow> 'p dispatcher" where
  "subscribe_all event callbacks s = fold (\<lambda>callback s'. snd (subscribe event callback s')) callbacks s"

subsection \<open>Example callbacks and states\<close>

definition cb_track :: "nat callback" where
  "cb_track = \<lparr>identity = 1, toString = ''(payload) => track(payload)'', behaviour = (\<lambda>_. None)\<rparr>"

definition cb_throws :: "nat callback" where
  "cb_throws = \<lparr>identity = 2, toString = ''(payload) => { throw new Error(payload.id) }'',
     behaviour = (\<lambda>_. Some (ErrorObject ''no id''))\<rparr>"

definition cb_twin :: "nat callback" where
  "cb_twin = \<lparr>identity = 3, toString = ''(payload) => track(payload)'',
     behaviour = (\<lambda>_. Some (OtherValue ''stopped''))\<rparr>"


definition cb_unreadable :: "nat callback" where
  "cb_unreadable = \<lparr>identity = 4, toString = ''(payload) => { throw new Unreadable() }'',
     behaviour = (\<lambda>_. Some (MessageThrows (OtherValue ''no message'')))\<rparr>"

definition example_unreadable :: "nat dispatcher" where
  "example_unreadable =
     \<lparr>subscribers =
        [(''page_viewed'', [(toString cb_unreadable, cb_unreadable), (toString cb_track, cb_track)])],
      registers = [],
      waitForReadyQueue = [],
      effects = []\<rparr>"

definition example_ready :: "nat dispatcher" where
  "example_ready =
     \<lparr>subscribers =
        [(''page_viewed'', [(toString cb_throws, cb_throws), (toString cb_track, cb_track)])],
      registers = [],
      waitForReadyQueue = [],
      effects = []\<rparr>"

section \<open>Facts about the containers\<close>

lemma map_of_Map_set: "map_of (Map_set k v m) = (map_of m)(k \<mapsto> v)"
  by (induction m) (auto simp: fun_eq_iff)

lemma keys_Map_set:
  "map fst (Map_set k v m) = (if k \<in> set (map fst m) then map fst m else map fst m @ [k])"
  by (induction m) (auto simp: rev_image_eqI)

lemma distinct_Map_set: "distinct (map fst m) \<Longrightarrow> distinct (map fst (Map_set k v m))"
  by (simp add: keys_Map_set)

lemma Map_set_fresh: "k \<notin> set (map fst m) \<Longrightarrow> Map_set k v m = m @ [(k, v)]"
  by (induction m) auto

lemma Map_get_Map_set: "Map_get k' (Map_set k v m) = (if k' = k then Some v else Map_get k' m)"
  by (simp add: Map_get_def map_of_Map_set)

lemma first_order_subset: "set (first_order xs) = set xs"
  by (induction xs) auto

lemma first_order_distinct: "distinct xs \<Longrightarrow> first_order xs = xs"
proof (induction xs)
  case Nil
  show ?case by simp
next
  case (Cons x xs)
  then have "filter (\<lambda>y. y \<noteq> x) xs = xs"
    by (auto intro: filter_True)
  with Cons show ?case by simp
qed

lemma first_order_snoc:
  "first_order (xs @ [x]) = (if x \<in> set xs then first_order xs else first_order xs @ [x])"
  by (induction xs) auto

lemma keys_fold_Map_set:
  "distinct (map fst q) \<Longrightarrow>
     map fst (fold (\<lambda>(event, payload). Map_set event payload) entries q) =
       first_order (map fst q @ map fst entries)"
proof (induction entries rule: rev_induct)
  case Nil
  then show ?case by (simp add: first_order_distinct)
next
  case (snoc entry entries)
  obtain event payload where entry: "entry = (event, payload)" by (cases entry)
  from snoc show ?case
    unfolding entry
    by (simp add: keys_Map_set first_order_snoc first_order_subset flip: append_assoc)
qed

lemma map_of_fold_Map_set:
  "map_of (fold (\<lambda>(event, payload). Map_set event payload) entries q) =
     map_of q ++ map_of (rev entries)"
proof (induction entries rule: rev_induct)
  case Nil
  show ?case by simp
next
  case (snoc entry entries)
  obtain event payload where entry: "entry = (event, payload)" by (cases entry)
  from snoc show ?case
    unfolding entry by (simp add: map_of_Map_set fun_eq_iff map_add_def)
qed


section \<open>Readiness of the registered keys\<close>






section \<open>Delivery\<close>

lemma try_callback_eq:
  "try_callback event payload entry s =
     (uncaught (snd entry) payload,
      s\<lparr>effects := effects s @ deliver_one event payload (snd entry)\<rparr>)"
proof (cases "behaviour (snd entry) payload")
  case None
  then show ?thesis
    by (simp add: try_callback_def call_callback_def deliver_one_def uncaught_def)
next
  case (Some error)
  then show ?thesis
    by (cases error)
       (simp_all add: try_callback_def call_callback_def console_error_def deliver_one_def
          uncaught_def)
qed

lemma forEach_try_callback:
  "forEach (try_callback event payload) m s =
     (escaping payload (map snd m),
      s\<lparr>effects := effects s @
           concat (map (deliver_one event payload) (reached payload (map snd m)))\<rparr>)"
proof (induction m arbitrary: s)
  case Nil
  show ?case by simp
next
  case (Cons entry m)
  let ?s = "s\<lparr>effects := effects s @ deliver_one event payload (snd entry)\<rparr>"
  have step: "try_callback event payload entry s = (uncaught (snd entry) payload, ?s)"
    by (rule try_callback_eq)
  show ?case
  proof (cases "uncaught (snd entry) payload")
    case None
    have "forEach (try_callback event payload) (entry # m) s =
        forEach (try_callback event payload) m ?s"
      by (simp only: forEach.simps step None) simp
    also have "\<dots> = (escaping payload (map snd m),
        ?s\<lparr>effects := effects ?s @
           concat (map (deliver_one event payload) (reached payload (map snd m)))\<rparr>)"
      by (rule Cons)
    finally show ?thesis
      using None by (simp add: caught_def)
  next
    case (Some e)
    have "forEach (try_callback event payload) (entry # m) s = (Some e, ?s)"
      by (simp only: forEach.simps step Some) simp
    then show ?thesis
      using Some by (simp add: caught_def)
  qed
qed

lemma publishEvent_general:
  "publishEvent event payload s =
     (escaping payload (subscribers_of event s),
      s\<lparr>effects := effects s @
           concat (map (deliver_one event payload) (reached payload (subscribers_of event s)))\<rparr>)"
  by (simp add: publishEvent_def forEach_try_callback subscribers_of_def subscriber_entries_def)

lemma reached_all:
  "list_all (\<lambda>callback. caught callback payload) callbacks \<Longrightarrow>
     reached payload callbacks = callbacks \<and> escaping payload callbacks = None"
  by (induction callbacks) (simp_all add: caught_def)

lemma inspectable_throws_caught:
  assumes "inspectable_throws s"
  shows "list_all (\<lambda>callback. caught callback payload) (subscribers_of event s)"
proof (cases "Map_get event (subscribers s)")
  case None
  then show ?thesis
    by (simp add: subscribers_of_def subscriber_entries_def)
next
  case (Some m)
  then have "(event, m) \<in> set (subscribers s)"
    by (simp add: Map_get_def map_of_SomeD)
  with assms have "list_all (\<lambda>(text, callback). catchable callback) m"
    by (auto simp: inspectable_throws_def list_all_iff)
  then have "list_all (\<lambda>callback. caught callback payload) (map snd m)"
    by (auto simp: list_all_iff catchable_def)
  with Some show ?thesis
    by (simp add: subscribers_of_def subscriber_entries_def)
qed

lemma publishEvent_eq:
  assumes "inspectable_throws s"
  shows "publishEvent event payload s =
     (None, s\<lparr>effects := effects s @ delivered s (event, payload)\<rparr>)"
  using reached_all [OF inspectable_throws_caught [OF assms, of payload event]]
  by (simp add: publishEvent_general delivered_def)

lemma delivered_effects: "delivered (s\<lparr>effects := t\<rparr>) = delivered s"
  by (simp add: fun_eq_iff delivered_def subscribers_of_def subscriber_entries_def)



lemma forEach_publishEvent:
  assumes "inspectable_throws s"
  shows "forEach (\<lambda>(queueEvent, queuePayload). publishEvent queueEvent queuePayload) q s =
     (None, s\<lparr>effects := effects s @ concat (map (delivered s) q)\<rparr>)"
  using assms
proof (induction q arbitrary: s)
  case Nil
  show ?case by simp
next
  case (Cons entry q)
  obtain event payload where entry: "entry = (event, payload)" by (cases entry)
  let ?s = "s\<lparr>effects := effects s @ delivered s (event, payload)\<rparr>"
  have "inspectable_throws ?s"
    using Cons.prems by (simp add: inspectable_throws_def)
  then have "forEach (\<lambda>(queueEvent, queuePayload). publishEvent queueEvent queuePayload) q ?s =
      (None, ?s\<lparr>effects := effects ?s @ concat (map (delivered ?s) q)\<rparr>)"
    by (rule Cons.IH)
  then show ?case
    unfolding entry by (simp add: publishEvent_eq [OF Cons.prems] delivered_effects)
qed

text \<open>Whatever the callbacks do, a delivery and a run of deliveries change the log only.\<close>

lemma publishEvent_log_only: "\<exists>t. snd (publishEvent event payload s) = s\<lparr>effects := t\<rparr>"
  by (simp add: publishEvent_general) blast

lemma forEach_log_only:
  assumes "\<And>x s. \<exists>t. snd (f x s) = s\<lparr>effects := t\<rparr>"
  shows "\<exists>t. snd (forEach f xs s) = s\<lparr>effects := t\<rparr>"
proof (induction xs arbitrary: s)
  case Nil
  show ?case by (rule exI [of _ "effects s"]) simp
next
  case (Cons x xs)
  obtain r s' where step: "f x s = (r, s')" by (cases "f x s")
  from assms [of x s] step obtain t where s': "s' = s\<lparr>effects := t\<rparr>" by auto
  show ?case
  proof (cases r)
    case None
    from Cons [of s'] obtain t' where "snd (forEach f xs s') = s'\<lparr>effects := t'\<rparr>" by blast
    with None step s' show ?thesis by auto
  next
    case (Some e)
    with step s' show ?thesis by auto
  qed
qed

section \<open>The hook outside a provider\<close>

text \<open>
  C2 (the hook outside a provider). Stated: invoked outside the provider's subtree, \<^verbatim>\<open>useAnalyticsProvider\<close> throws
  at once and never returns a value. The code: with no provider above the caller,
  \<^verbatim>\<open>useContext\<close> yields the default value given to \<^verbatim>\<open>createContext\<close>, which is the
  object \<^verbatim>\<open>defaultAnalyticsContext\<close>; an object is truthy, the guard does not fire, and
  the hook returns that default object instead of throwing.
\<close>

theorem useAnalyticsProvider_outside_provider:
  "useAnalyticsProvider None = Inr (Object defaultAnalyticsContext)"
  by (simp add: useAnalyticsProvider_def useContext_def AnalyticsContext_def)

section \<open>Queueing and flushing\<close>




lemma publish_not_ready:
  "\<not> areRegistersReady s \<Longrightarrow>
     publish event payload s =
       (None, s\<lparr>waitForReadyQueue := Map_set event payload (waitForReadyQueue s)\<rparr>)"
  by (simp add: publish_def)

lemma publish_ready_general:
  "areRegistersReady s \<Longrightarrow>
     publish event payload s =
       (escaping payload (subscribers_of event s),
        s\<lparr>effects := effects s @
             concat (map (deliver_one event payload) (reached payload (subscribers_of event s)))\<rparr>)"
  by (simp add: publish_def publishEvent_general)

lemma publish_ready:
  "areRegistersReady s \<Longrightarrow> inspectable_throws s \<Longrightarrow>
     publish event payload s = (None, s\<lparr>effects := effects s @ delivered s (event, payload)\<rparr>)"
  by (simp add: publish_def publishEvent_eq)







section \<open>The invariant is kept\<close>


text \<open>
  Whatever the callbacks do, \<^verbatim>\<open>ready()\<close> sets its key, leaves the subscribers, and
  leaves the queue either empty or, when a flush has thrown, as it was.
\<close>

lemma register_ready_shape:
  "\<exists>q t. snd (register_ready key s) =
       s\<lparr>registers := prop_assign key True (registers s), waitForReadyQueue := q, effects := t\<rparr>
     \<and> (q = [] \<or> q = waitForReadyQueue s)"
proof -
  let ?s1 = "s\<lparr>registers := prop_assign key True (registers s)\<rparr>"
  let ?run = "forEach (\<lambda>(queueEvent, queuePayload). publishEvent queueEvent queuePayload)
     (waitForReadyQueue ?s1) ?s1"
  have "\<exists>t. snd ((case x of (queueEvent, queuePayload) \<Rightarrow> publishEvent queueEvent queuePayload) s')
      = s'\<lparr>effects := t\<rparr>" for x :: "string \<times> 'a" and s' :: "'a dispatcher"
    by (cases x) (simp add: publishEvent_log_only)
  then have "\<exists>t. snd ?run = ?s1\<lparr>effects := t\<rparr>"
    by (rule forEach_log_only)
  then obtain t where run: "snd ?run = ?s1\<lparr>effects := t\<rparr>" by blast
  obtain r s2 where pair: "?run = (r, s2)" by (cases ?run)
  with run have s2: "s2 = ?s1\<lparr>effects := t\<rparr>" by simp
  show ?thesis
  proof (cases "areRegistersReady ?s1 \<and> length (waitForReadyQueue ?s1) > 0")
    case False
    then have "snd (register_ready key s) = ?s1"
      by (auto simp: register_ready_def)
    then have "snd (register_ready key s) =
        s\<lparr>registers := prop_assign key True (registers s),
          waitForReadyQueue := waitForReadyQueue s, effects := effects s\<rparr>"
      by simp
    then show ?thesis by blast
  next
    case True
    show ?thesis
    proof (cases r)
      case None
      with True pair s2 have "snd (register_ready key s) =
          s\<lparr>registers := prop_assign key True (registers s),
            waitForReadyQueue := [], effects := t\<rparr>"
        by (simp add: register_ready_def)
      then show ?thesis by blast
    next
      case (Some e)
      with True pair s2 have "snd (register_ready key s) =
          s\<lparr>registers := prop_assign key True (registers s),
            waitForReadyQueue := waitForReadyQueue s, effects := t\<rparr>"
        by (simp add: register_ready_def)
      then show ?thesis by blast
    qed
  qed
qed

lemma key_set_Map_set: "fst ` set (Map_set k v m) = insert k (fst ` set m)"
proof -
  have "set (map fst (Map_set k v m)) = insert k (set (map fst m))"
    by (simp add: keys_Map_set insert_absorb)
  then show ?thesis by simp
qed

lemma wf_prop_assign:
  assumes "distinct (map fst regs)" and "''__proto__'' \<notin> set (map fst regs)"
  shows "distinct (map fst (prop_assign key v regs))"
    and "''__proto__'' \<notin> set (map fst (prop_assign key v regs))"
  using assms by (simp_all add: prop_assign_def distinct_Map_set key_set_Map_set)

lemma wf_initial: "wf initial"
  by (simp add: wf_def initial_def)

lemma wf_publish: "wf s \<Longrightarrow> wf (snd (publish event payload s))"
  by (cases "areRegistersReady s")
     (simp_all add: publish_ready_general publish_not_ready wf_def distinct_Map_set)

lemma wf_subscribe: "wf s \<Longrightarrow> wf (snd (subscribe event callback s))"
  by (simp add: subscribe_def Let_def wf_def distinct_Map_set split: option.splits)

lemma wf_register_ready:
  assumes "wf s"
  shows "wf (snd (register_ready key s))"
proof -
  obtain q t where shape: "snd (register_ready key s) =
      s\<lparr>registers := prop_assign key True (registers s), waitForReadyQueue := q, effects := t\<rparr>"
    and q: "q = [] \<or> q = waitForReadyQueue s"
    using register_ready_shape [of key s] by blast
  from q assms have "distinct (map fst q)"
    by (auto simp: wf_def)
  with assms wf_prop_assign [of "registers s" key True] show ?thesis
    by (simp add: shape wf_def)
qed

lemma wf_register: "wf s \<Longrightarrow> wf (snd (register key s))"
  using wf_prop_assign [of "registers s" key False]
  by (simp add: register_def hasOwnProperty_def wf_def)

section \<open>Error isolation\<close>

lemma invocations_logged: "filter is_invocation (logged error) = []"
  by (cases error) simp_all

lemma console_lines_logged: "filter (\<lambda>x. \<not> is_invocation x) (logged error) = logged error"
  by (cases error) simp_all

lemma invocations_deliver_one:
  "invocations (deliver_one event payload callback) = [Invoked event (identity callback) payload]"
  by (simp add: invocations_def deliver_one_def invocations_logged split: option.splits)

lemma invocations_append: "invocations (xs @ ys) = invocations xs @ invocations ys"
  by (simp add: invocations_def)

lemma invocations_deliveries:
  "invocations (concat (map (deliver_one event payload) callbacks)) =
     map (\<lambda>callback. Invoked event (identity callback) payload) callbacks"
proof (induction callbacks)
  case Nil
  show ?case by (simp add: invocations_def)
next
  case (Cons callback callbacks)
  then show ?case by (simp add: invocations_append invocations_deliver_one)
qed

lemma invocations_delivered:
  "invocations (delivered s (event, payload)) =
     map (\<lambda>callback. Invoked event (identity callback) payload) (subscribers_of event s)"
  by (simp add: delivered_def invocations_deliveries)

lemma console_lines_deliveries:
  "filter (\<lambda>x. \<not> is_invocation x) (concat (map (deliver_one event payload) callbacks)) =
     concat (map (\<lambda>callback. case behaviour callback payload of
                                 None \<Rightarrow> [] | Some error \<Rightarrow> logged error) callbacks)"
  by (induction callbacks)
     (simp_all add: deliver_one_def console_lines_logged split: option.splits)

lemma register_ready_completes:
  assumes "inspectable_throws s"
  shows "fst (register_ready key s) = None"
proof -
  have "inspectable_throws (s\<lparr>registers := prop_assign key True (registers s)\<rparr>)"
    using assms by (simp add: inspectable_throws_def)
  note flush = forEach_publishEvent [OF this]
  show ?thesis
    by (simp add: register_ready_def Let_def flush)
qed

text \<open>
  While every subscriber throws only values the \<^verbatim>\<open>catch\<close> block can inspect, a throwing
  callback is isolated: \<^verbatim>\<open>publishEvent\<close> completes and leaves in the log one invocation
  per subscriber of the event, in subscriber order, and one console line for each callback
  that threw; \<^verbatim>\<open>publish\<close> and the \<^verbatim>\<open>ready\<close> closure complete.
\<close>

lemma isolation_of_inspectable_throws:
  assumes "inspectable_throws s"
  shows "publishEvent E P s = (None, s\<lparr>effects := effects s @ delivered s (E, P)\<rparr>)
   \<and> invocations (delivered s (E, P)) =
       map (\<lambda>callback. Invoked E (identity callback) P) (subscribers_of E s)
   \<and> filter (\<lambda>x. \<not> is_invocation x) (delivered s (E, P)) =
       concat (map (\<lambda>callback. case behaviour callback P of
                                   None \<Rightarrow> [] | Some error \<Rightarrow> logged error)
                 (subscribers_of E s))
   \<and> fst (publish E P s) = None
   \<and> fst (register_ready key s) = None"
proof -
  have "filter (\<lambda>x. \<not> is_invocation x) (delivered s (E, P)) =
       concat (map (\<lambda>callback. case behaviour callback P of
                                   None \<Rightarrow> [] | Some error \<Rightarrow> logged error)
                 (subscribers_of E s))"
    by (simp add: delivered_def console_lines_deliveries)
  moreover have "fst (publish E P s) = None"
    by (simp add: publish_def publishEvent_eq [OF assms])
  moreover have "fst (register_ready key s) = None"
    using assms by (rule register_ready_completes)
  ultimately show ?thesis
    by (simp add: publishEvent_eq [OF assms] invocations_delivered)
qed

lemma isolation_example:
  "subscribers_of ''page_viewed'' example_ready = [cb_throws, cb_track]
   \<and> behaviour cb_throws 5 = Some (ErrorObject ''no id'')
   \<and> publish ''page_viewed'' 5 example_ready =
       (None, example_ready\<lparr>effects :=
          [Invoked ''page_viewed'' (identity cb_throws) 5,
           ConsoleError ''Analytics publish error'' (Text ''no id''),
           Invoked ''page_viewed'' (identity cb_track) 5]\<rparr>)"
proof -
  have r: "areRegistersReady example_ready"
    by (simp add: areRegistersReady_def Object_keys_def example_ready_def)
  have i: "inspectable_throws example_ready"
    by (simp add: inspectable_throws_def catchable_def caught_def uncaught_def
        example_ready_def cb_track_def cb_throws_def)
  have s: "subscribers_of ''page_viewed'' example_ready = [cb_throws, cb_track]"
    by (simp add: subscribers_of_def subscriber_entries_def Map_get_def example_ready_def)
  have "publish ''page_viewed'' 5 example_ready =
      (None, example_ready\<lparr>effects :=
         effects example_ready @ delivered example_ready (''page_viewed'', 5)\<rparr>)"
    using r i by (rule publish_ready)
  moreover have "effects example_ready = []"
    by (simp add: example_ready_def)
  ultimately show ?thesis
    by (simp add: s delivered_def deliver_one_def cb_throws_def cb_track_def)
qed

text \<open>
  The same thrown value in a flush: \<^verbatim>\<open>ready()\<close> throws it to its caller, the second
  subscriber is not invoked, and the pending entry stays in the queue, \<^verbatim>\<open>clear()\<close> not
  being reached.
\<close>

lemma flush_throws_from_catch_block:
  "register_ready ''consent''
     (example_unreadable\<lparr>registers := [(''consent'', False)],
        waitForReadyQueue := [(''page_viewed'', 7)]\<rparr>) =
   (Some (OtherValue ''no message''),
    example_unreadable\<lparr>registers := [(''consent'', True)],
      waitForReadyQueue := [(''page_viewed'', 7)],
      effects := [Invoked ''page_viewed'' (identity cb_unreadable) 7]\<rparr>)"
  by (simp add: register_ready_def prop_assign_def areRegistersReady_def Object_keys_def
      prop_read_def publishEvent_def Map_get_def try_callback_def call_callback_def
      example_unreadable_def cb_unreadable_def cb_track_def)

text \<open>
  C4 (error isolation). Stated: when a subscriber's callback throws, the error is caught
  and logged, every remaining subscriber of the event is still invoked, and the publish
  (or the flush) returns without propagating the error. The code does so for the values a
  callback ordinarily throws (lemma \<open>isolation_of_inspectable_throws\<close>). Its \<^verbatim>\<open>catch\<close>
  block inspects the thrown value with \<^verbatim>\<open>error instanceof Error\<close> and \<^verbatim>\<open>error.message\<close>
  outside any \<^verbatim>\<open>try\<close>: when the first of two subscribers throws an \<^verbatim>\<open>Error\<close> whose
  \<^verbatim>\<open>message\<close> getter throws, the read of the message throws inside the \<^verbatim>\<open>catch\<close> block,
  \<^verbatim>\<open>publish\<close> throws that value to its caller, nothing is logged and the second subscriber
  is not invoked.
\<close>

theorem publish_throws_from_catch_block:
  "subscribers_of ''page_viewed'' example_unreadable = [cb_unreadable, cb_track]
   \<and> behaviour cb_unreadable 5 = Some (MessageThrows (OtherValue ''no message''))
   \<and> publish ''page_viewed'' 5 example_unreadable =
       (Some (OtherValue ''no message''),
        example_unreadable\<lparr>effects := [Invoked ''page_viewed'' (identity cb_unreadable) 5]\<rparr>)"
proof -
  have r: "areRegistersReady example_unreadable"
    by (simp add: areRegistersReady_def Object_keys_def example_unreadable_def)
  have s: "subscribers_of ''page_viewed'' example_unreadable = [cb_unreadable, cb_track]"
    by (simp add: subscribers_of_def subscriber_entries_def Map_get_def example_unreadable_def)
  have u: "uncaught cb_unreadable 5 = Some (OtherValue ''no message'')"
    by (simp add: uncaught_def cb_unreadable_def)
  have "publish ''page_viewed'' 5 example_unreadable =
      (Some (OtherValue ''no message''),
       example_unreadable\<lparr>effects := effects example_unreadable @
         deliver_one ''page_viewed'' 5 cb_unreadable\<rparr>)"
    using r by (simp add: publish_ready_general s u caught_def)
  moreover have "effects example_unreadable = []"
    by (simp add: example_unreadable_def)
  moreover have "deliver_one ''page_viewed'' 5 cb_unreadable =
      [Invoked ''page_viewed'' (identity cb_unreadable) 5]"
    by (simp add: deliver_one_def cb_unreadable_def)
  ultimately show ?thesis
    by (simp add: s) (simp add: cb_unreadable_def)
qed

section \<open>Vacuous readiness\<close>



section \<open>Subscribing\<close>

lemma Map_set_Map_set: "Map_set k v (Map_set k v' m) = Map_set k v m"
  by (induction m) auto

lemma Map_set_replace:
  "k \<notin> fst ` set xs \<Longrightarrow> Map_set k v (xs @ (k, v') # ys) = xs @ (k, v) # ys"
  by (induction xs) auto

lemma subscribe_eq:
  "subscribe event callback s =
     (None, s\<lparr>subscribers :=
        Map_set event (Map_set (toString callback) callback (subscriber_entries event s))
          (subscribers s)\<rparr>)"
proof (cases "Map_get event (subscribers s)")
  case None
  then have "\<not> Map_has event (subscribers s)"
    by (simp add: Map_has_def Map_get_def)
  with None show ?thesis
    by (simp add: subscribe_def subscriber_entries_def Map_get_Map_set Map_set_Map_set)
next
  case (Some m)
  then have "Map_has event (subscribers s)"
    by (simp add: Map_has_def Map_get_def)
  with Some show ?thesis
    by (simp add: subscribe_def subscriber_entries_def)
qed

lemma subscriber_entries_subscribe:
  "subscriber_entries event' (snd (subscribe event callback s)) =
     (if event' = event
      then Map_set (toString callback) callback (subscriber_entries event s)
      else subscriber_entries event' s)"
  by (simp add: subscribe_eq subscriber_entries_def Map_get_Map_set)

lemma subscribe_keeps:
  "registers (snd (subscribe event callback s)) = registers s"
  "waitForReadyQueue (snd (subscribe event callback s)) = waitForReadyQueue s"
  "effects (snd (subscribe event callback s)) = effects s"
  by (simp_all add: subscribe_eq)

text \<open>
  The assumption on thrown values: a callback is catchable when it throws only instances
  of \<^verbatim>\<open>Error\<close> with a readable message and other values whose inspection completes.
  That every subscriber is catchable holds of the initial state, is kept by subscribing a
  catchable callback, and is not touched by the other operations, which leave the
  subscribers as they are.
\<close>

lemma catchable_iff:
  "catchable callback =
     (\<forall>payload error. behaviour callback payload = Some error \<longrightarrow>
        (\<exists>message. error = ErrorObject message) \<or> (\<exists>v. error = OtherValue v))"
proof -
  have "(escaping_catch error = None) =
      ((\<exists>message. error = ErrorObject message) \<or> (\<exists>v. error = OtherValue v))" for error
    by (cases error) simp_all
  then show ?thesis
    by (auto simp: catchable_def caught_def uncaught_def split: option.splits)
qed

lemma list_all_Map_set:
  "list_all (\<lambda>(k, v). Q v) m \<Longrightarrow> Q v \<Longrightarrow> list_all (\<lambda>(k, v). Q v) (Map_set k v m)"
  by (induction m) auto

lemma inspectable_throws_initial: "inspectable_throws initial"
  by (simp add: inspectable_throws_def initial_def)

lemma inspectable_throws_subscribe:
  assumes "inspectable_throws s" and "catchable callback"
  shows "inspectable_throws (snd (subscribe event callback s))"
proof -
  have "list_all (\<lambda>(text, callback). catchable callback) (subscriber_entries event s)"
  proof (cases "Map_get event (subscribers s)")
    case None
    then show ?thesis by (simp add: subscriber_entries_def)
  next
    case (Some m)
    then have "(event, m) \<in> set (subscribers s)"
      by (simp add: Map_get_def map_of_SomeD)
    with assms(1) Some show ?thesis
      by (auto simp: inspectable_throws_def list_all_iff subscriber_entries_def)
  qed
  then have "list_all (\<lambda>(text, callback). catchable callback)
      (Map_set (toString callback) callback (subscriber_entries event s))"
    using assms(2) by (rule list_all_Map_set)
  with assms(1) show ?thesis
    unfolding inspectable_throws_def subscribe_eq
    by (simp add: list_all_Map_set [where Q = "list_all (\<lambda>(text, callback). catchable callback)"])
qed

lemma inspectable_throws_publish:
  "inspectable_throws (snd (publish event payload s)) = inspectable_throws s"
  by (simp add: inspectable_throws_def publish_def publishEvent_general)

lemma inspectable_throws_register_ready:
  "inspectable_throws (snd (register_ready key s)) = inspectable_throws s"
proof -
  obtain q t where "snd (register_ready key s) =
      s\<lparr>registers := prop_assign key True (registers s), waitForReadyQueue := q, effects := t\<rparr>"
    using register_ready_shape [of key s] by blast
  then show ?thesis
    by (simp add: inspectable_throws_def)
qed

lemma inspectable_throws_register:
  "inspectable_throws (snd (register key s)) = inspectable_throws s"
  by (simp add: inspectable_throws_def register_def hasOwnProperty_def)

text \<open>
  C9 (subscribers are keyed by their text). When the subscribers of an event hold a
  callback \<open>old\<close> under its text and \<^verbatim>\<open>subscribe\<close> is called for the same event with a
  callback \<open>new\<close> of the same text, no entry is added: \<open>new\<close> takes the place of \<open>old\<close>,
  at the same position, and every other entry stays. Nothing is asked of the identities
  or of the behaviour of the two callbacks, so two different closures with the same text
  are one subscriber.
\<close>

theorem subscribe_collision:
  assumes "subscriber_entries E s = before @ (toString old, old) # after"
    and "toString old \<notin> set (map fst before)"
    and "toString new = toString old"
  shows "subscriber_entries E (snd (subscribe E new s)) = before @ (toString new, new) # after
     \<and> subscriber_keys E (snd (subscribe E new s)) = subscriber_keys E s
     \<and> length (subscribers_of E (snd (subscribe E new s))) = length (subscribers_of E s)
     \<and> Map_get (toString old) (subscriber_entries E (snd (subscribe E new s))) = Some new"
proof -
  have "subscriber_entries E (snd (subscribe E new s)) = before @ (toString new, new) # after"
    using assms by (simp add: subscriber_entries_subscribe Map_set_replace)
  then show ?thesis
    using assms by (simp add: subscriber_keys_def subscribers_of_def Map_get_def map_of_append
        map_add_def map_of_eq_None_iff [THEN iffD2] split: option.splits)
qed

theorem subscribe_collision_witness:
  "subscriber_entries ''page_viewed'' example_ready =
     [(toString cb_throws, cb_throws)] @ (toString cb_track, cb_track) # []
   \<and> toString cb_track \<notin> set (map fst [(toString cb_throws, cb_throws)])
   \<and> toString cb_twin = toString cb_track
   \<and> identity cb_twin \<noteq> identity cb_track
   \<and> subscribers_of ''page_viewed'' (snd (subscribe ''page_viewed'' cb_twin example_ready)) =
       [cb_throws, cb_twin]"
proof -
  have e: "subscriber_entries ''page_viewed'' example_ready =
     [(toString cb_throws, cb_throws)] @ (toString cb_track, cb_track) # []"
    by (simp add: subscriber_entries_def Map_get_def example_ready_def)
  have f: "toString cb_track \<notin> set (map fst [(toString cb_throws, cb_throws)])"
    by (simp add: cb_track_def cb_throws_def)
  have t: "toString cb_twin = toString cb_track" "identity cb_twin \<noteq> identity cb_track"
    by (simp_all add: cb_twin_def cb_track_def)
  from subscribe_collision [OF e f t(1)] e f t
  show ?thesis by (simp add: subscribers_of_def)
qed


section \<open>Order of delivery\<close>

lemma subscribe_all_Cons:
  "subscribe_all event (callback # callbacks) s =
     subscribe_all event callbacks (snd (subscribe event callback s))"
  by (simp add: subscribe_all_def)

lemma subscribe_all_keeps:
  "registers (subscribe_all event callbacks s) = registers s
   \<and> waitForReadyQueue (subscribe_all event callbacks s) = waitForReadyQueue s
   \<and> effects (subscribe_all event callbacks s) = effects s"
proof (induction callbacks arbitrary: s)
  case Nil
  show ?case by (simp add: subscribe_all_def)
next
  case (Cons callback callbacks)
  show ?case by (simp add: subscribe_all_Cons Cons subscribe_keeps)
qed

lemma subscriber_entries_subscribe_all:
  assumes "distinct (map toString callbacks)"
    and "set (map toString callbacks) \<inter> set (subscriber_keys event s) = {}"
  shows "subscriber_entries event (subscribe_all event callbacks s) =
     subscriber_entries event s @ map (\<lambda>callback. (toString callback, callback)) callbacks"
  using assms
proof (induction callbacks arbitrary: s)
  case Nil
  show ?case by (simp add: subscribe_all_def)
next
  case (Cons callback callbacks)
  let ?s = "snd (subscribe event callback s)"
  from Cons.prems have fresh: "toString callback \<notin> set (map fst (subscriber_entries event s))"
    by (simp add: subscriber_keys_def)
  then have step: "subscriber_entries event ?s =
      subscriber_entries event s @ [(toString callback, callback)]"
    by (simp add: subscriber_entries_subscribe Map_set_fresh)
  then have "subscriber_keys event ?s = subscriber_keys event s @ [toString callback]"
    by (simp add: subscriber_keys_def)
  with Cons.prems have disjoint: "set (map toString callbacks) \<inter> set (subscriber_keys event ?s) = {}"
    by auto
  from Cons.prems have "distinct (map toString callbacks)" by simp
  from this disjoint have "subscriber_entries event (subscribe_all event callbacks ?s) =
      subscriber_entries event ?s @ map (\<lambda>callback. (toString callback, callback)) callbacks"
    by (rule Cons.IH)
  with step show ?case by (simp add: subscribe_all_Cons)
qed

lemma subscriber_entries_subscribe_all_fold:
  "subscriber_entries event (subscribe_all event callbacks s) =
     fold (\<lambda>(text, callback). Map_set text callback)
       (map (\<lambda>callback. (toString callback, callback)) callbacks) (subscriber_entries event s)"
proof (induction callbacks arbitrary: s)
  case Nil
  show ?case by (simp add: subscribe_all_def)
next
  case (Cons callback callbacks)
  show ?case
    by (simp add: subscribe_all_Cons Cons subscriber_entries_subscribe)
qed

lemma reached_prefix: "reached payload callbacks = take (length (reached payload callbacks)) callbacks"
  by (induction callbacks) simp_all

text \<open>The texts under which the subscribers of an event are stored are never repeated.\<close>

lemma distinct_keys_initial: "distinct (subscriber_keys event initial)"
  by (simp add: subscriber_keys_def subscriber_entries_def Map_get_def initial_def)

lemma distinct_keys_subscribe:
  assumes "distinct (subscriber_keys event' s)"
  shows "distinct (subscriber_keys event' (snd (subscribe event callback s)))"
  using assms
  by (auto simp: subscriber_keys_def subscriber_entries_subscribe distinct_Map_set)

text \<open>
  C8 (order preservation), as the code has it. With every registered key ready,
  \<^verbatim>\<open>publish\<close> invokes the subscribers of the event in the iteration order of their
  \<^verbatim>\<open>Map\<close>, the effects of one callback (its invocation and, when it throws, its console
  line) complete before the next callback is invoked; the callbacks it invokes are a
  front part of that order, all of it when every callback is caught. The order is that of
  the first subscription of each text: after a run of subscriptions the texts stand in
  the order of their first occurrence (those already present first), each with the
  callback subscribed last under it. So callbacks of different texts, none subscribed to the
  event before, come after the earlier subscribers in the order of their subscription: for
  two such callbacks \<open>[A, B]\<close>, \<open>A\<close> is invoked, and done, before \<open>B\<close>. A callback whose
  text is already present takes the place of the earlier callback with that text.
\<close>

theorem order_preservation:
  assumes "areRegistersReady s" and "distinct (subscriber_keys E s)"
  shows "subscriber_keys E (subscribe_all E callbacks s) =
           first_order (subscriber_keys E s @ map toString callbacks)
     \<and> map_of (subscriber_entries E (subscribe_all E callbacks s)) =
           map_of (subscriber_entries E s) ++
           map_of (rev (map (\<lambda>callback. (toString callback, callback)) callbacks))
     \<and> (distinct (map toString callbacks)
          \<and> set (map toString callbacks) \<inter> set (subscriber_keys E s) = {} \<longrightarrow>
          subscribers_of E (subscribe_all E callbacks s) = subscribers_of E s @ callbacks)
     \<and> publish E P (subscribe_all E callbacks s) =
         (escaping P (subscribers_of E (subscribe_all E callbacks s)),
          (subscribe_all E callbacks s)
            \<lparr>effects := effects s @
               concat (map (deliver_one E P)
                 (reached P (subscribers_of E (subscribe_all E callbacks s))))\<rparr>)
     \<and> reached P (subscribers_of E (subscribe_all E callbacks s)) =
         take (length (reached P (subscribers_of E (subscribe_all E callbacks s))))
           (subscribers_of E (subscribe_all E callbacks s))
     \<and> (list_all (\<lambda>callback. caught callback P) (subscribers_of E (subscribe_all E callbacks s)) \<longrightarrow>
          reached P (subscribers_of E (subscribe_all E callbacks s)) =
            subscribers_of E (subscribe_all E callbacks s))"
proof -
  let ?s = "subscribe_all E callbacks s"
  let ?new = "map (\<lambda>callback. (toString callback, callback)) callbacks"
  have d: "distinct (map fst (subscriber_entries E s))"
    using assms(2) by (simp add: subscriber_keys_def)
  have keys: "subscriber_keys E ?s = first_order (subscriber_keys E s @ map toString callbacks)"
    using keys_fold_Map_set [OF d, of ?new]
    by (simp add: subscriber_keys_def subscriber_entries_subscribe_all_fold comp_def)
  have latest: "map_of (subscriber_entries E ?s) =
      map_of (subscriber_entries E s) ++ map_of (rev ?new)"
    by (simp add: subscriber_entries_subscribe_all_fold map_of_fold_Map_set)
  have fresh: "distinct (map toString callbacks)
      \<and> set (map toString callbacks) \<inter> set (subscriber_keys E s) = {} \<longrightarrow>
      subscribers_of E ?s = subscribers_of E s @ callbacks"
  proof
    assume "distinct (map toString callbacks)
      \<and> set (map toString callbacks) \<inter> set (subscriber_keys E s) = {}"
    then have "subscriber_entries E ?s =
        subscriber_entries E s @ map (\<lambda>callback. (toString callback, callback)) callbacks"
      by (intro subscriber_entries_subscribe_all) simp_all
    then show "subscribers_of E ?s = subscribers_of E s @ callbacks"
      by (simp add: subscribers_of_def comp_def)
  qed
  have "areRegistersReady ?s"
    using assms(1) subscribe_all_keeps [of E callbacks s] by (simp add: areRegistersReady_def)
  then have "publish E P ?s =
      (escaping P (subscribers_of E ?s),
       ?s\<lparr>effects := effects ?s @
          concat (map (deliver_one E P) (reached P (subscribers_of E ?s)))\<rparr>)"
    by (rule publish_ready_general)
  then have pub: "publish E P ?s =
      (escaping P (subscribers_of E ?s),
       ?s\<lparr>effects := effects s @
          concat (map (deliver_one E P) (reached P (subscribers_of E ?s)))\<rparr>)"
    using subscribe_all_keeps [of E callbacks s] by simp
  have all: "list_all (\<lambda>callback. caught callback P) (subscribers_of E ?s) \<longrightarrow>
      reached P (subscribers_of E ?s) = subscribers_of E ?s"
    using reached_all [of P "subscribers_of E ?s"] by simp
  note front = reached_prefix [of P "subscribers_of E ?s"]
  show ?thesis
    by (rule conjI [OF keys conjI [OF latest conjI [OF fresh conjI [OF pub conjI [OF front all]]]]])
qed

theorem order_preservation_witness:
  "areRegistersReady (initial :: nat dispatcher)
   \<and> distinct (subscriber_keys ''page_viewed'' (initial :: nat dispatcher))
   \<and> distinct (map toString [cb_throws, cb_track])
   \<and> set (map toString [cb_throws, cb_track])
        \<inter> set (subscriber_keys ''page_viewed'' (initial :: nat dispatcher)) = {}
   \<and> subscribers_of ''page_viewed'' (subscribe_all ''page_viewed'' [cb_throws, cb_track] initial) =
       [cb_throws, cb_track]
   \<and> effects (snd (publish ''page_viewed'' 4
        (subscribe_all ''page_viewed'' [cb_throws, cb_track] initial))) =
       [Invoked ''page_viewed'' (identity cb_throws) 4,
        ConsoleError ''Analytics publish error'' (Text ''no id''),
        Invoked ''page_viewed'' (identity cb_track) 4]"
proof -
  let ?s = "subscribe_all ''page_viewed'' [cb_throws, cb_track] (initial :: nat dispatcher)"
  have r: "areRegistersReady (initial :: nat dispatcher)"
    by (simp add: areRegistersReady_def Object_keys_def initial_def)
  have k: "subscriber_keys ''page_viewed'' (initial :: nat dispatcher) = []"
    "subscribers_of ''page_viewed'' (initial :: nat dispatcher) = []"
    "effects (initial :: nat dispatcher) = []"
    by (simp_all add: subscriber_keys_def subscribers_of_def subscriber_entries_def
        Map_get_def initial_def)
  have d0: "distinct (subscriber_keys ''page_viewed'' (initial :: nat dispatcher))"
    by (simp add: k)
  have d: "distinct (map toString [cb_throws, cb_track])"
    by (simp add: cb_track_def cb_throws_def)
  have f: "set (map toString [cb_throws, cb_track])
      \<inter> set (subscriber_keys ''page_viewed'' (initial :: nat dispatcher)) = {}"
    by (simp add: k)
  note t = order_preservation [OF r d0, of "[cb_throws, cb_track]" 4]
  have subs: "subscribers_of ''page_viewed'' ?s = [cb_throws, cb_track]"
    using t [THEN conjunct2, THEN conjunct2, THEN conjunct1, THEN mp, OF conjI [OF d f]]
    by (simp add: k)
  have c: "caught cb_throws 4" "caught cb_track 4"
    by (simp_all add: caught_def uncaught_def cb_throws_def cb_track_def)
  have "publish ''page_viewed'' 4 ?s =
      (escaping 4 (subscribers_of ''page_viewed'' ?s),
       ?s\<lparr>effects := effects (initial :: nat dispatcher) @
          concat (map (deliver_one ''page_viewed'' 4)
            (reached 4 (subscribers_of ''page_viewed'' ?s)))\<rparr>)"
    by (rule t [THEN conjunct2, THEN conjunct2, THEN conjunct2, THEN conjunct1])
  then have "effects (snd (publish ''page_viewed'' 4 ?s)) =
      concat (map (deliver_one ''page_viewed'' 4) [cb_throws, cb_track])"
    by (simp add: subs c k)
  then show ?thesis
    using r d0 d f subs by (simp add: deliver_one_def cb_throws_def cb_track_def)
qed

text \<open>
  The order is not that of the subscriptions when a text comes again: \<open>cb_track\<close>,
  \<open>cb_throws\<close> and \<open>cb_twin\<close> are subscribed in this order, \<open>cb_twin\<close> has the text of
  \<open>cb_track\<close> and takes its place, and the publish invokes \<open>cb_twin\<close> before \<open>cb_throws\<close>,
  which was subscribed before it.
\<close>

theorem order_preservation_counterexample:
  "subscribers_of ''page_viewed''
     (subscribe_all ''page_viewed'' [cb_track, cb_throws, cb_twin] initial) = [cb_twin, cb_throws]
   \<and> invocations (effects (snd (publish ''page_viewed'' 4
        (subscribe_all ''page_viewed'' [cb_track, cb_throws, cb_twin] initial)))) =
       [Invoked ''page_viewed'' (identity cb_twin) 4,
        Invoked ''page_viewed'' (identity cb_throws) 4]
   \<and> identity cb_twin \<noteq> identity cb_throws"
proof -
  let ?s = "subscribe_all ''page_viewed'' [cb_track, cb_throws, cb_twin] (initial :: nat dispatcher)"
  have e: "subscriber_entries ''page_viewed'' ?s =
      [(toString cb_twin, cb_twin), (toString cb_throws, cb_throws)]"
    by (simp add: subscriber_entries_subscribe_all_fold)
       (simp add: subscriber_entries_def Map_get_def initial_def
          cb_track_def cb_throws_def cb_twin_def)
  then have subs: "subscribers_of ''page_viewed'' ?s = [cb_twin, cb_throws]"
    by (simp add: subscribers_of_def)
  have r: "areRegistersReady ?s"
    using subscribe_all_keeps [of "''page_viewed''" "[cb_track, cb_throws, cb_twin]" initial]
    by (simp add: areRegistersReady_def Object_keys_def initial_def)
  have c: "caught cb_twin 4" "caught cb_throws 4"
    by (simp_all add: caught_def uncaught_def cb_throws_def cb_twin_def)
  have "effects (snd (publish ''page_viewed'' 4 ?s)) =
      effects ?s @ concat (map (deliver_one ''page_viewed'' 4) [cb_twin, cb_throws])"
    using r by (simp add: publish_ready_general subs c)
  moreover have "effects ?s = []"
    using subscribe_all_keeps [of "''page_viewed''" "[cb_track, cb_throws, cb_twin]" initial]
    by (simp add: initial_def)
  ultimately have "invocations (effects (snd (publish ''page_viewed'' 4 ?s))) =
      [Invoked ''page_viewed'' (identity cb_twin) 4, Invoked ''page_viewed'' (identity cb_throws) 4]"
    using invocations_deliveries [of "''page_viewed''" 4 "[cb_twin, cb_throws]"] by simp
  then show ?thesis
    using subs by (simp add: cb_twin_def cb_throws_def)
qed

section \<open>The order of the pending queue\<close>








section \<open>Overwriting a pending payload\<close>














section \<open>Pending entries without subscribers\<close>







section \<open>Registering a key again\<close>

lemma register_registered_key:
  assumes "\<not> Map_has ''hasOwnProperty'' (registers s)" and "Map_has key (registers s)"
  shows "register key s = (Inr \<lparr>ready = register_ready key\<rparr>, s)"
  using assms by (simp add: register_def hasOwnProperty_def)

lemma register_new_key:
  assumes "\<not> Map_has ''hasOwnProperty'' (registers s)" and "\<not> Map_has key (registers s)"
  shows "register key s =
     (Inr \<lparr>ready = register_ready key\<rparr>, s\<lparr>registers := prop_assign key False (registers s)\<rparr>)"
  using assms by (simp add: register_def hasOwnProperty_def)

lemma register_ready_marks:
  assumes "key \<noteq> ''__proto__''"
  shows "Map_get key (registers (snd (register_ready key s))) = Some True"
proof -
  obtain q t where "snd (register_ready key s) =
      s\<lparr>registers := prop_assign key True (registers s), waitForReadyQueue := q, effects := t\<rparr>"
    using register_ready_shape [of key s] by blast
  with assms show ?thesis
    by (simp add: prop_assign_def Map_get_Map_set)
qed

text \<open>
  C5 (registering a key again). Stated: for every key \<open>k\<close>, \<^verbatim>\<open>register(k)\<close> on a
  registered \<open>k\<close> keeps the flag of \<open>k\<close> and returns a \<^verbatim>\<open>ready\<close> closure for \<open>k\<close>, and
  calling it marks \<open>k\<close> ready. The code does so while no key named \<^verbatim>\<open>hasOwnProperty\<close> is
  registered (lemmas \<open>register_registered_key\<close> and \<open>register_ready_marks\<close>). It tests
  membership with \<^verbatim>\<open>registers.hasOwnProperty(key)\<close>, a method looked up on the dictionary
  itself: \<^verbatim>\<open>register("hasOwnProperty")\<close> stores the flag \<^verbatim>\<open>false\<close> under that name, and
  the next \<^verbatim>\<open>register\<close> call, here for the same key, throws a TypeError instead of
  returning a closure.
\<close>

theorem register_again_after_hasOwnProperty:
  "registers (snd (register ''hasOwnProperty'' (initial :: 'p dispatcher))) =
     [(''hasOwnProperty'', False)]
   \<and> fst (register ''hasOwnProperty'' (snd (register ''hasOwnProperty'' (initial :: 'p dispatcher)))) =
     Inl (ErrorObject ''registers.hasOwnProperty is not a function'')"
  by (simp add: register_def hasOwnProperty_def Map_has_def prop_assign_def initial_def)

end
